theory Spec2Isabelle
  imports Main
begin

section \<open>Descriptors\<close>

text \<open>
  The name lookup of the plugin framework works on descriptor messages: files, messages,
  enums, services and their members.  The source imports the descriptor types and the two
  type guards it uses from modules of their own; here a descriptor is a record with the
  three things the lookup reads from it (its kind, its local \<open>name\<close> and, on a file, its
  \<open>package\<close>) and with an \<open>ident\<close> that stands for the identity of the JavaScript object:
  the reverse map of the lookup is keyed by object identity, so two descriptors with equal
  fields are still two keys.
\<close>

datatype kind = File | Message | Enum | Service | Field | Oneof | Method

record AnyDescriptorProto =
  ident :: nat
  kind :: kind
  name :: "string option"
  package :: "string option"

text \<open>
  Modelled from the spec: the type guard \<open>FileDescriptorProto.is\<close> of the generated
  descriptor module; the spec's descriptor model is a tagged set of variants, and the guard
  holds on the File variant.
\<close>

definition FileDescriptorProto_is :: "AnyDescriptorProto \<Rightarrow> bool" where
  "FileDescriptorProto_is d = (kind d = File)"

text \<open>
  Modelled from the spec: the type guard \<open>isAnyTypeDescriptorProto\<close> of the module
  \<open>descriptor-info\<close>; the nameable descriptors of the spec are the messages, the enums and
  the services.
\<close>

definition isAnyTypeDescriptorProto :: "AnyDescriptorProto \<Rightarrow> bool" where
  "isAnyTypeDescriptorProto d = (kind d = Message \<or> kind d = Enum \<or> kind d = Service)"

text \<open>
  Every \<open>assert\<close> of the source throws the runtime's plain error.  The constructors below
  name the assertion that failed, after the error kinds of the specification; the message
  of \<open>resolveTypeName\<close> quotes the normalized name, which \<open>UnresolvedName\<close> carries.
\<close>

datatype error =
    MalformedChain
  | DuplicateName
  | UnresolvedName string
  | UnknownDescriptor

section \<open>Strings and arrays of the host language\<close>

definition startsWith :: "string \<Rightarrow> string \<Rightarrow> bool" where
  "startsWith s p = (take (length p) s = p)"

definition substring :: "string \<Rightarrow> nat \<Rightarrow> string" where
  "substring s n = drop n s"

fun join :: "string list \<Rightarrow> string \<Rightarrow> string" where
  "join [] sep = []"
| "join [x] sep = x"
| "join (x # y # ys) sep = x @ sep @ join (y # ys) sep"

text \<open>
  Arrays are objects: a variable holds a reference, and \<open>shift\<close> and \<open>pop\<close> change the
  array they are called on.  The store is the list of all arrays of descriptors, an address
  is an index into it, and a new array is put at the end.
\<close>

type_synonym addr = nat
type_synonym store = "AnyDescriptorProto list list"

definition array_concat :: "store \<Rightarrow> addr \<Rightarrow> store \<times> addr" where
  "array_concat s a = (s @ [s ! a], length s)"

definition array_shift :: "store \<Rightarrow> addr \<Rightarrow> store \<times> AnyDescriptorProto option" where
  "array_shift s a =
     (case s ! a of
        [] \<Rightarrow> (s, None)
      | x # xs \<Rightarrow> (s[a := xs], Some x))"

definition array_pop :: "store \<Rightarrow> addr \<Rightarrow> store \<times> AnyDescriptorProto option" where
  "array_pop s a =
     (case s ! a of
        [] \<Rightarrow> (s, None)
      | x # xs \<Rightarrow> (s[a := butlast (x # xs)], Some (last (x # xs))))"

section \<open>Composing a type name\<close>

text \<open>
  The loop of \<open>composeTypeName\<close> over \<open>[...mid, last]\<close>: every item must carry a name,
  which is pushed onto \<open>parts\<close>.
\<close>

fun push_names :: "AnyDescriptorProto list \<Rightarrow> string list \<Rightarrow> error + string list" where
  "push_names [] parts = Inr parts"
| "push_names (item # items) parts =
     (case name item of
        None \<Rightarrow> Inl MalformedChain
      | Some part \<Rightarrow> push_names items (parts @ [part]))"

text \<open>
  \<open>composeTypeName\<close> on the array at address \<open>descriptors\<close>.  It returns the store it
  leaves behind with its result: \<open>mid\<close> is the copy made by \<open>concat\<close>, and \<open>first\<close> and
  \<open>last\<close> (here \<open>first_d\<close> and \<open>last_d\<close>, undefined when the array they are taken from is
  empty) are taken off that copy; both type guards are false on \<open>undefined\<close>.  The spread
  \<open>[...mid, last]\<close> and the array \<open>parts\<close> of strings are read as values.
\<close>

definition composeTypeName_at :: "store \<Rightarrow> addr \<Rightarrow> store \<times> (error + string)" where
  "composeTypeName_at s descriptors =
     (if \<not> length (s ! descriptors) > 0 then (s, Inl MalformedChain)
      else
        let (s1, mid) = array_concat s descriptors;
            (s2, first_d) = array_shift s1 mid;
            (s3, last_d) = array_pop s2 mid
        in
          case first_d of
            None \<Rightarrow> (s3, Inl MalformedChain)
          | Some f \<Rightarrow>
              if \<not> FileDescriptorProto_is f then (s3, Inl MalformedChain)
              else
                (case last_d of
                   None \<Rightarrow> (s3, Inl MalformedChain)
                 | Some l \<Rightarrow>
                     if \<not> isAnyTypeDescriptorProto l then (s3, Inl MalformedChain)
                     else
                       let parts =
                             (case package f of
                                None \<Rightarrow> []
                              | Some pkg \<Rightarrow> if pkg \<noteq> [] then [pkg] else [])
                       in
                         (case push_names (s3 ! mid @ [l]) parts of
                            Inl e \<Rightarrow> (s3, Inl e)
                          | Inr parts \<Rightarrow> (s3, Inr (join parts ''.'')))))"

text \<open>
  The result of \<open>composeTypeName\<close> on an array with the given elements, for the callers that
  pass a fresh array (\<open>[...ancestors, descriptor]\<close>) and use only the result.
\<close>

definition composeTypeName :: "AnyDescriptorProto list \<Rightarrow> error + string" where
  "composeTypeName ds = snd (composeTypeName_at [ds] 0)"

section \<open>The lookup\<close>

record entry =
  descriptor :: AnyDescriptorProto
  ancestors :: "AnyDescriptorProto list"

record TypeNameLookup =
  names :: "string \<rightharpoonup> AnyDescriptorProto"
  reverse :: "AnyDescriptorProto \<rightharpoonup> string"

text \<open>The loop of the constructor over \<open>data\<close>, on the two maps built so far.\<close>

fun construct :: "entry list \<Rightarrow> TypeNameLookup \<Rightarrow> error + TypeNameLookup" where
  "construct [] t = Inr t"
| "construct (e # data) t =
     (case composeTypeName (ancestors e @ [descriptor e]) of
        Inl err \<Rightarrow> Inl err
      | Inr n \<Rightarrow>
          if names t n \<noteq> None then Inl DuplicateName
          else construct data
                 (t\<lparr>names := (names t)(n \<mapsto> descriptor e),
                    reverse := (reverse t)(descriptor e \<mapsto> n)\<rparr>))"

definition new_TypeNameLookup :: "entry list \<Rightarrow> error + TypeNameLookup" where
  "new_TypeNameLookup data = construct data \<lparr>names = Map.empty, reverse = Map.empty\<rparr>"

definition normalizeTypeName :: "string \<Rightarrow> string" where
  "normalizeTypeName typeName =
     (if startsWith typeName ''.'' then substring typeName 1 else typeName)"

definition resolveTypeName :: "TypeNameLookup \<Rightarrow> string \<Rightarrow> error + AnyDescriptorProto" where
  "resolveTypeName t typeName =
     (let typeName = normalizeTypeName typeName
      in case names t typeName of
           None \<Rightarrow> Inl (UnresolvedName typeName)
         | Some d \<Rightarrow> Inr d)"

definition peekTypeName :: "TypeNameLookup \<Rightarrow> string \<Rightarrow> AnyDescriptorProto option" where
  "peekTypeName t typeName =
     (let typeName = normalizeTypeName typeName
      in names t typeName)"

definition makeTypeName :: "TypeNameLookup \<Rightarrow> AnyDescriptorProto \<Rightarrow> error + string" where
  "makeTypeName t d =
     (case reverse t d of
        None \<Rightarrow> Inl UnknownDescriptor
      | Some n \<Rightarrow> Inr n)"

section \<open>Building the lookup from a list of descriptors\<close>

text \<open>
  The \<open>while\<close> loop of \<open>TypeNameLookup.from\<close> that collects the ancestors of the
  descriptor \<open>d\<close> with the parent provider \<open>b\<close>, in the array \<open>anc\<close> (\<open>unshift\<close> puts \<open>p\<close>
  in front).  The parent provider is taken to be a function of the descriptor alone, as the
  \<open>parentOf\<close> of a descriptor tree is.  The loop has no bound, so its model is a partial
  function: \<open>None\<close> is the loop that does not end (in an engine the array grows until memory
  runs out; either way nothing is returned).
\<close>

partial_function (option) climb ::
  "(AnyDescriptorProto \<Rightarrow> AnyDescriptorProto option) \<Rightarrow> AnyDescriptorProto \<Rightarrow>
   AnyDescriptorProto option \<Rightarrow> AnyDescriptorProto list \<Rightarrow> AnyDescriptorProto list option"
where
  "climb b d p anc =
     (case p of
        None \<Rightarrow> Some anc
      | Some q \<Rightarrow> climb b d (b d) (q # anc))"

text \<open>The \<open>for\<close> loop over the descriptors, pushing onto \<open>data\<close>.\<close>

fun collect ::
  "AnyDescriptorProto list \<Rightarrow> (AnyDescriptorProto \<Rightarrow> AnyDescriptorProto option) \<Rightarrow>
   entry list \<Rightarrow> entry list option"
where
  "collect [] b data = Some data"
| "collect (d # a) b data =
     (if \<not> isAnyTypeDescriptorProto d then collect a b data
      else
        (case climb b d (b d) [] of
           None \<Rightarrow> None
         | Some anc \<Rightarrow> collect a b (data @ [\<lparr>descriptor = d, ancestors = anc\<rparr>])))"

text \<open>
  \<open>TypeNameLookup.from\<close> on its first branch, with a list of descriptors and a parent
  provider: \<open>None\<close> when it does not return, otherwise what the constructor returns on the
  collected data.
\<close>

definition from_descriptors ::
  "AnyDescriptorProto list \<Rightarrow> (AnyDescriptorProto \<Rightarrow> AnyDescriptorProto option) \<Rightarrow>
   (error + TypeNameLookup) option"
where
  "from_descriptors a b =
     (case collect a b [] of
        None \<Rightarrow> None
      | Some data \<Rightarrow> Some (new_TypeNameLookup data))"

section \<open>Notions used in the statements\<close>

text \<open>
  The package of a file as a list of name segments: one segment when the package is a
  non-empty string, none otherwise.
\<close>

definition package_part :: "AnyDescriptorProto \<Rightarrow> string list" where
  "package_part f =
     (case package f of
        None \<Rightarrow> []
      | Some pkg \<Rightarrow> if pkg \<noteq> [] then [pkg] else [])"

text \<open>
  The four conditions of the specification on the sequence of ancestors and target: it is
  not empty, it starts with a file, it ends with a message, an enum or a service, and every
  element after the first has a name.
\<close>

definition well_formed_chain :: "AnyDescriptorProto list \<Rightarrow> bool" where
  "well_formed_chain ds \<longleftrightarrow>
     ds \<noteq> [] \<and> kind (hd ds) = File \<and> kind (last ds) \<in> {Message, Enum, Service}
     \<and> (\<forall>x\<in>set (tl ds). name x \<noteq> None)"

text \<open>The name the constructor composes for an entry of \<open>data\<close>.\<close>

definition compose_entry :: "entry \<Rightarrow> error + string" where
  "compose_entry e = composeTypeName (ancestors e @ [descriptor e])"

text \<open>The two maps agree: a name recorded for a descriptor leads back to it.\<close>

definition consistent :: "TypeNameLookup \<Rightarrow> bool" where
  "consistent t = (\<forall>d n. reverse t d = Some n \<longrightarrow> names t n = Some d)"

text \<open>
  The ancestor chain as the specification describes it: from a descriptor to its parent,
  from that parent to its parent, until the parent provider returns none; the chain lists
  the visited ancestors root first.  A descriptor has such a chain exactly when following
  the parent provider from it reaches none after finitely many steps.
\<close>

inductive ancestor_chain ::
  "(AnyDescriptorProto \<Rightarrow> AnyDescriptorProto option) \<Rightarrow> AnyDescriptorProto \<Rightarrow>
   AnyDescriptorProto list \<Rightarrow> bool"
  for b
where
  root: "b d = None \<Longrightarrow> ancestor_chain b d []"
| step: "b d = Some p \<Longrightarrow> ancestor_chain b p anc \<Longrightarrow> ancestor_chain b d (anc @ [p])"

section \<open>Example descriptors\<close>

text \<open>
  File \<open>a.proto\<close> of package \<open>pkg\<close> with the message \<open>Outer\<close> and, nested in it, the message
  \<open>Inner\<close>; a second file of the same package; two messages \<open>Dup\<close>.
\<close>

definition ex_fileA :: AnyDescriptorProto where
  "ex_fileA = \<lparr>ident = 0, kind = File, name = Some ''a.proto'', package = Some ''pkg''\<rparr>"

definition ex_outer :: AnyDescriptorProto where
  "ex_outer = \<lparr>ident = 1, kind = Message, name = Some ''Outer'', package = None\<rparr>"

definition ex_inner :: AnyDescriptorProto where
  "ex_inner = \<lparr>ident = 2, kind = Message, name = Some ''Inner'', package = None\<rparr>"

definition ex_fileB :: AnyDescriptorProto where
  "ex_fileB = \<lparr>ident = 3, kind = File, name = Some ''b.proto'', package = Some ''pkg''\<rparr>"

definition ex_dupA :: AnyDescriptorProto where
  "ex_dupA = \<lparr>ident = 4, kind = Message, name = Some ''Dup'', package = None\<rparr>"

definition ex_dupB :: AnyDescriptorProto where
  "ex_dupB = \<lparr>ident = 5, kind = Message, name = Some ''Dup'', package = None\<rparr>"

text \<open>The parent provider of \<open>a.proto\<close>, and one that answers with a cycle.\<close>

definition ex_parentOf :: "AnyDescriptorProto \<Rightarrow> AnyDescriptorProto option" where
  "ex_parentOf d =
     (if d = ex_outer then Some ex_fileA else if d = ex_inner then Some ex_outer else None)"

definition ex_cyclic :: "AnyDescriptorProto \<Rightarrow> AnyDescriptorProto option" where
  "ex_cyclic d =
     (if d = ex_outer then Some ex_inner else if d = ex_inner then Some ex_outer else None)"

text \<open>The two compositions that the specification spells out.\<close>

definition ex_my_package :: AnyDescriptorProto where
  "ex_my_package =
     \<lparr>ident = 10, kind = File, name = Some ''m.proto'', package = Some ''my_package''\<rparr>"

definition ex_MyMessage :: AnyDescriptorProto where
  "ex_MyMessage = \<lparr>ident = 11, kind = Message, name = Some ''MyMessage'', package = None\<rparr>"

definition ex_MyNestedMessage :: AnyDescriptorProto where
  "ex_MyNestedMessage =
     \<lparr>ident = 12, kind = Message, name = Some ''MyNestedMessage'', package = None\<rparr>"

definition ex_no_package :: AnyDescriptorProto where
  "ex_no_package = \<lparr>ident = 20, kind = File, name = Some ''t.proto'', package = Some []\<rparr>"

definition ex_TopLevel :: AnyDescriptorProto where
  "ex_TopLevel = \<lparr>ident = 21, kind = Message, name = Some ''TopLevel'', package = None\<rparr>"

text \<open>
  A message whose name starts with a period, in the file without a package, and the lookup
  the constructor builds from it; the lookup of \<open>Outer\<close> alone.
\<close>

definition ex_dotted :: AnyDescriptorProto where
  "ex_dotted = \<lparr>ident = 22, kind = Message, name = Some ''.X'', package = None\<rparr>"

definition ex_dotted_lookup :: TypeNameLookup where
  "ex_dotted_lookup = \<lparr>names = [''.X'' \<mapsto> ex_dotted], reverse = [ex_dotted \<mapsto> ''.X'']\<rparr>"

definition ex_outer_lookup :: TypeNameLookup where
  "ex_outer_lookup =
     \<lparr>names = [''pkg.Outer'' \<mapsto> ex_outer], reverse = [ex_outer \<mapsto> ''pkg.Outer'']\<rparr>"

section \<open>What composeTypeName computes\<close>

lemmas ex_defs = ex_fileA_def ex_outer_def ex_inner_def ex_fileB_def ex_dupA_def ex_dupB_def
  ex_my_package_def ex_MyMessage_def ex_MyNestedMessage_def ex_no_package_def ex_TopLevel_def
  ex_dotted_def

lemma push_names_eq:
  "push_names items parts =
     (if \<forall>x\<in>set items. name x \<noteq> None then Inr (parts @ map (\<lambda>x. the (name x)) items)
      else Inl MalformedChain)"
  by (induction items arbitrary: parts) (auto split: option.splits)

text \<open>
  On a store that holds the array: an empty array fails at once and the store stays as it
  is; otherwise the store gains one array, what is left of the copy \<open>mid\<close>, and the result
  depends on the elements of the array only.
\<close>

lemma composeTypeName_at_eq:
  assumes "descriptors < length s"
  shows "composeTypeName_at s descriptors =
     (case s ! descriptors of
        [] \<Rightarrow> (s, Inl MalformedChain)
      | f # rest \<Rightarrow>
          (s @ [butlast rest],
           if \<not> FileDescriptorProto_is f then Inl MalformedChain
           else if rest = [] then Inl MalformedChain
           else if \<not> isAnyTypeDescriptorProto (last rest) then Inl MalformedChain
           else (case push_names rest (package_part f) of
                   Inl e \<Rightarrow> Inl e
                 | Inr parts \<Rightarrow> Inr (join parts ''.''))))"
proof (cases "s ! descriptors")
  case Nil
  then show ?thesis by (simp add: composeTypeName_at_def)
next
  case (Cons f rest)
  show ?thesis
  proof (cases "rest = []")
    case True
    with Cons assms show ?thesis
      by (simp add: composeTypeName_at_def array_concat_def array_shift_def array_pop_def
            nth_append package_part_def)
  next
    case False
    have bl: "butlast rest @ [last rest] = rest" using False by simp
    have c: "array_concat s descriptors = (s @ [f # rest], length s)"
      using Cons by (simp add: array_concat_def)
    have sh: "array_shift (s @ [f # rest]) (length s) = (s @ [rest], Some f)"
      by (simp add: array_shift_def)
    have po: "array_pop (s @ [rest]) (length s) = (s @ [butlast rest], Some (last rest))"
      using False by (cases rest) (simp_all add: array_pop_def)
    show ?thesis
      using Cons bl False
      by (simp add: composeTypeName_at_def c sh po package_part_def split: sum.splits)
  qed
qed

lemma composeTypeName_Nil: "composeTypeName [] = Inl MalformedChain"
  by (simp add: composeTypeName_def composeTypeName_at_eq)

lemma composeTypeName_Cons:
  "composeTypeName (f # rest) =
     (if \<not> FileDescriptorProto_is f then Inl MalformedChain
      else if rest = [] then Inl MalformedChain
      else if \<not> isAnyTypeDescriptorProto (last rest) then Inl MalformedChain
      else (case push_names rest (package_part f) of
              Inl e \<Rightarrow> Inl e
            | Inr parts \<Rightarrow> Inr (join parts ''.'')))"
  by (simp add: composeTypeName_def composeTypeName_at_eq)

lemma composeTypeName_at_result:
  "descriptors < length s \<Longrightarrow>
   snd (composeTypeName_at s descriptors) = composeTypeName (s ! descriptors)"
  by (cases "s ! descriptors")
     (simp_all add: composeTypeName_at_eq composeTypeName_Nil composeTypeName_Cons)

lemma composeTypeName_error: "composeTypeName ds = Inl e \<Longrightarrow> e = MalformedChain"
  by (cases ds)
     (auto simp: composeTypeName_Nil composeTypeName_Cons push_names_eq split: if_splits)

lemmas compose_simps = composeTypeName_Nil composeTypeName_Cons FileDescriptorProto_is_def
  isAnyTypeDescriptorProto_def package_part_def

lemma join_starts_with_first:
  "segs \<noteq> [] \<Longrightarrow> take (length (hd segs)) (join segs sep) = hd segs"
  by (cases "(segs, sep)" rule: join.cases) simp_all

lemma composeTypeName_chain:
  assumes "kind f = File" and "kind t \<in> {Message, Enum, Service}"
    and "map name (mid @ [t]) = map Some ns"
  shows "composeTypeName (f # mid @ [t]) = Inr (join (package_part f @ ns) ''.'')"
proof -
  have all: "\<forall>x\<in>set (mid @ [t]). name x \<noteq> None"
  proof
    fix x assume "x \<in> set (mid @ [t])"
    then have "name x \<in> set (map name (mid @ [t]))" by (metis image_eqI set_map)
    with assms(3) show "name x \<noteq> None" by auto
  qed
  have ns: "map (\<lambda>x. the (name x)) (mid @ [t]) = ns"
  proof -
    have "map the (map name (mid @ [t])) = map the (map Some ns)" using assms(3) by simp
    then show ?thesis by (simp add: comp_def)
  qed
  show ?thesis
    using assms(1,2) all ns
    by (simp add: composeTypeName_Cons push_names_eq FileDescriptorProto_is_def
          isAnyTypeDescriptorProto_def del: map_append)
qed

lemma join_no_leading_period:
  assumes "segs \<noteq> []" and "hd segs \<noteq> []" and "\<not> startsWith (hd segs) ''.''"
  shows "\<not> startsWith (join segs ''.'') ''.''"
proof -
  from assms(2) obtain c cs where seg: "hd segs = c # cs" by (cases "hd segs") auto
  from join_starts_with_first [OF assms(1), of "''.''"]
  have "take (length (hd segs)) (join segs ''.'') = hd segs" .
  then obtain r where "join segs ''.'' = c # r"
    using seg by (cases "join segs ''.''") auto
  with assms(3) seg show ?thesis by (simp add: startsWith_def)
qed

text \<open>
  C10. \<open>composeTypeName\<close> does not change the array it is given: whether it succeeds or
  fails, the array at the address it was called with holds the same elements in the same
  order afterwards, and so does every other array that was in the store before the call.
\<close>

theorem composeTypeName_keeps_descriptors:
  assumes "descriptors < length s"
  shows "take (length s) (fst (composeTypeName_at s descriptors)) = s
         \<and> fst (composeTypeName_at s descriptors) ! descriptors = s ! descriptors"
  using assms by (simp add: composeTypeName_at_eq nth_append split: list.splits)

text \<open>The array of a chain that composes, and the array of a lone message, which fails.\<close>

theorem composeTypeName_keeps_descriptors_witness:
  "(0::nat) < length [ [ex_fileA, ex_outer] ]
   \<and> fst (composeTypeName_at [ [ex_fileA, ex_outer] ] 0) ! 0 = [ex_fileA, ex_outer]
   \<and> snd (composeTypeName_at [ [ex_fileA, ex_outer] ] 0) = Inr ''pkg.Outer''
   \<and> fst (composeTypeName_at [ [ex_outer] ] 0) ! 0 = [ex_outer]
   \<and> snd (composeTypeName_at [ [ex_outer] ] 0) = Inl MalformedChain"
  using composeTypeName_keeps_descriptors [of 0 "[ [ex_fileA, ex_outer] ]"]
    composeTypeName_keeps_descriptors [of 0 "[ [ex_outer] ]"]
  by (simp add: composeTypeName_at_result ex_defs compose_simps)

text \<open>
  C7. \<open>composeTypeName\<close> fails, with the malformed-chain failure, exactly when the sequence
  of ancestors and target is empty, or its first element is not a file, or its last element
  is not a message, an enum or a service, or an element other than the first has no name;
  on every sequence that meets the four conditions it returns a name.
\<close>

theorem composeTypeName_malformed_iff:
  "(composeTypeName ds = Inl MalformedChain \<longleftrightarrow> \<not> well_formed_chain ds)
   \<and> ((\<exists>n. composeTypeName ds = Inr n) \<longleftrightarrow> well_formed_chain ds)"
proof (cases ds)
  case Nil
  then show ?thesis by (simp add: composeTypeName_Nil well_formed_chain_def)
next
  case (Cons f rest)
  then show ?thesis
    by (auto simp add: composeTypeName_Cons push_names_eq FileDescriptorProto_is_def
          isAnyTypeDescriptorProto_def well_formed_chain_def)
qed

text \<open>A lone message and a lone file fail; file, message, nested message compose.\<close>

theorem composeTypeName_malformed_iff_witness:
  "\<not> well_formed_chain [ex_outer] \<and> composeTypeName [ex_outer] = Inl MalformedChain
   \<and> \<not> well_formed_chain [ex_fileA] \<and> composeTypeName [ex_fileA] = Inl MalformedChain
   \<and> well_formed_chain [ex_fileA, ex_outer, ex_inner]
   \<and> composeTypeName [ex_fileA, ex_outer, ex_inner] = Inr ''pkg.Outer.Inner''"
  using composeTypeName_malformed_iff [of "[ex_outer]"]
    composeTypeName_malformed_iff [of "[ex_fileA]"]
    composeTypeName_malformed_iff [of "[ex_fileA, ex_outer, ex_inner]"]
  by (simp add: well_formed_chain_def ex_defs compose_simps)

text \<open>
  C6, as amended.  On a well-formed chain \<open>composeTypeName\<close> returns the segments joined
  with a period: the package, when it is a non-empty string, then the name of every element
  after the file in order, the target's name last.  Nothing is put in front of the first
  segment, so the result has no leading period when the first segment is a non-empty string
  that does not itself start with a period.
\<close>

theorem composeTypeName_qualified_name:
  assumes "well_formed_chain ds" and "map name (tl ds) = map Some ns"
  shows "composeTypeName ds = Inr (join (package_part (hd ds) @ ns) ''.'')
         \<and> (hd (package_part (hd ds) @ ns) \<noteq> []
              \<and> \<not> startsWith (hd (package_part (hd ds) @ ns)) ''.''
            \<longrightarrow> \<not> startsWith (join (package_part (hd ds) @ ns) ''.'') ''.'')"
proof -
  from assms(1) obtain f rest where ds: "ds = f # rest" "rest \<noteq> []"
    by (cases ds; cases "tl ds") (auto simp: well_formed_chain_def)
  then obtain mid t where rest: "rest = mid @ [t]" by (metis append_butlast_last_id)
  have "ns \<noteq> []" using assms(2) ds rest by auto
  then have ne: "package_part f @ ns \<noteq> []" by simp
  from assms ds rest composeTypeName_chain [of f t mid ns]
  have "composeTypeName ds = Inr (join (package_part (hd ds) @ ns) ''.'')"
    by (simp add: well_formed_chain_def)
  with join_no_leading_period [OF ne] ds show ?thesis by simp
qed

text \<open>
  Package \<open>my_package\<close>, ancestor \<open>MyMessage\<close>, target \<open>MyNestedMessage\<close>; and an empty package
  with the target \<open>TopLevel\<close> alone.
\<close>

theorem composeTypeName_qualified_name_witness:
  "well_formed_chain [ex_my_package, ex_MyMessage, ex_MyNestedMessage]
   \<and> composeTypeName [ex_my_package, ex_MyMessage, ex_MyNestedMessage]
       = Inr ''my_package.MyMessage.MyNestedMessage''
   \<and> \<not> startsWith ''my_package.MyMessage.MyNestedMessage'' ''.''
   \<and> well_formed_chain [ex_no_package, ex_TopLevel]
   \<and> composeTypeName [ex_no_package, ex_TopLevel] = Inr ''TopLevel''"
proof -
  have w1: "well_formed_chain [ex_my_package, ex_MyMessage, ex_MyNestedMessage]"
    and w2: "well_formed_chain [ex_no_package, ex_TopLevel]"
    by (simp_all add: well_formed_chain_def ex_defs)
  have n1: "map name (tl [ex_my_package, ex_MyMessage, ex_MyNestedMessage])
            = map Some [''MyMessage'', ''MyNestedMessage'']"
    and n2: "map name (tl [ex_no_package, ex_TopLevel]) = map Some [''TopLevel'']"
    by (simp_all add: ex_defs)
  from composeTypeName_qualified_name [OF w1 n1] composeTypeName_qualified_name [OF w2 n2] w1 w2
  show ?thesis
    by (simp add: package_part_def ex_defs startsWith_def)
qed

text \<open>
  The chain of the file without a package and the message named \<open>.X\<close> is well formed, and
  its composed name starts with a period.
\<close>

theorem composeTypeName_leading_period:
  "well_formed_chain [ex_no_package, ex_dotted]
   \<and> composeTypeName [ex_no_package, ex_dotted] = Inr ''.X'' \<and> startsWith ''.X'' ''.''"
  by (simp add: well_formed_chain_def ex_defs compose_simps startsWith_def)

section \<open>Normalizing and looking up names\<close>

lemma normalizeTypeName_dot: "normalizeTypeName (CHR ''.'' # r) = r"
  by (simp add: normalizeTypeName_def startsWith_def substring_def)

lemma normalizeTypeName_plain: "\<not> startsWith x ''.'' \<Longrightarrow> normalizeTypeName x = x"
  by (simp add: normalizeTypeName_def)




text \<open>
  C5. On every lookup and every string, \<open>peekTypeName\<close> returns nothing exactly when
  \<open>resolveTypeName\<close> fails, and that failure is the unresolved name (it quotes the normalized
  string); otherwise both return the same descriptor.
\<close>

theorem peekTypeName_absent_iff:
  "(peekTypeName t n = None
      \<longleftrightarrow> resolveTypeName t n = Inl (UnresolvedName (normalizeTypeName n)))
   \<and> (peekTypeName t n = None \<longleftrightarrow> (\<exists>e. resolveTypeName t n = Inl e))
   \<and> (\<forall>d. peekTypeName t n = Some d \<longleftrightarrow> resolveTypeName t n = Inr d)"
  by (auto simp: peekTypeName_def resolveTypeName_def Let_def split: option.splits)

text \<open>
  C9, as amended.  For a name \<open>x\<close> in the table, \<open>resolveTypeName\<close> on the name with a period
  put in front returns the descriptor stored under \<open>x\<close>, since the lookup takes one leading
  period off the queried name; on \<open>x\<close> itself it returns the same descriptor when \<open>x\<close> does
  not start with a period.
\<close>

theorem resolveTypeName_leading_period:
  assumes "names t x = Some d"
  shows "resolveTypeName t (CHR ''.'' # x) = Inr d
         \<and> (\<not> startsWith x ''.'' \<longrightarrow> resolveTypeName t x = Inr d)"
  using assms
  by (simp add: resolveTypeName_def Let_def normalizeTypeName_dot normalizeTypeName_plain)

theorem resolveTypeName_leading_period_witness:
  "names ex_outer_lookup ''pkg.Outer'' = Some ex_outer
   \<and> \<not> startsWith ''pkg.Outer'' ''.''
   \<and> resolveTypeName ex_outer_lookup ''.pkg.Outer'' = Inr ex_outer
   \<and> resolveTypeName ex_outer_lookup ''pkg.Outer'' = Inr ex_outer"
proof -
  have n: "names ex_outer_lookup ''pkg.Outer'' = Some ex_outer"
    by (simp add: ex_outer_lookup_def)
  have p: "\<not> startsWith ''pkg.Outer'' ''.''" by (simp add: startsWith_def)
  from resolveTypeName_leading_period [OF n] n p show ?thesis by simp
qed

section \<open>The constructor\<close>

lemma construct_Cons:
  "construct (e # data) t =
     (case compose_entry e of
        Inl err \<Rightarrow> Inl err
      | Inr n \<Rightarrow>
          if n \<in> dom (names t) then Inl DuplicateName
          else construct data
                 (t\<lparr>names := (names t)(n \<mapsto> descriptor e),
                    reverse := (reverse t)(descriptor e \<mapsto> n)\<rparr>))"
  by (auto simp: compose_entry_def split: sum.splits)

declare construct.simps(2) [simp del]

text \<open>One round of the loop, read from its end and from its start.\<close>

lemma construct_step:
  assumes "construct (e # data) t = Inr t'"
  obtains n t1 where "compose_entry e = Inr n" and "n \<notin> dom (names t)"
    and "names t1 = (names t)(n \<mapsto> descriptor e)"
    and "reverse t1 = (reverse t)(descriptor e \<mapsto> n)"
    and "construct data t1 = Inr t'"
proof -
  from assms obtain n where n: "compose_entry e = Inr n" "n \<notin> dom (names t)"
    and rest: "construct data (t\<lparr>names := (names t)(n \<mapsto> descriptor e),
                    reverse := (reverse t)(descriptor e \<mapsto> n)\<rparr>) = Inr t'"
    by (auto simp: construct_Cons split: sum.splits if_splits)
  show thesis
    by (rule that [OF n _ _ rest]) simp_all
qed

lemma construct_continue:
  assumes "compose_entry e = Inr n" and "n \<notin> dom (names t)"
  obtains t1 where "names t1 = (names t)(n \<mapsto> descriptor e)"
    and "reverse t1 = (reverse t)(descriptor e \<mapsto> n)"
    and "construct (e # data) t = construct data t1"
proof -
  let ?t = "t\<lparr>names := (names t)(n \<mapsto> descriptor e),
                    reverse := (reverse t)(descriptor e \<mapsto> n)\<rparr>"
  have "construct (e # data) t = construct data ?t"
    using assms by (auto simp: construct_Cons)
  then show thesis
    by (rule that [rotated 2]) simp_all
qed

lemma consistent_empty: "consistent \<lparr>names = Map.empty, reverse = Map.empty\<rparr>"
  by (simp add: consistent_def)

lemma construct_consistent:
  "construct data t = Inr t' \<Longrightarrow> consistent t \<Longrightarrow> consistent t'"
proof (induction data arbitrary: t)
  case Nil
  then show ?case by simp
next
  case (Cons e data)
  from Cons.prems(1) obtain n t1 where n: "n \<notin> dom (names t)"
    and t1: "names t1 = (names t)(n \<mapsto> descriptor e)"
      "reverse t1 = (reverse t)(descriptor e \<mapsto> n)"
    and rest: "construct data t1 = Inr t'"
    by (rule construct_step)
  have "consistent t1"
    using Cons.prems(2) n t1 by (auto simp: consistent_def)
  with Cons.IH rest show ?case by blast
qed

lemma construct_dom_reverse:
  "construct data t = Inr t' \<Longrightarrow> dom (reverse t') = dom (reverse t) \<union> descriptor ` set data"
proof (induction data arbitrary: t)
  case Nil
  then show ?case by simp
next
  case (Cons e data)
  from Cons.prems(1) obtain n t1 where
    t1: "reverse t1 = (reverse t)(descriptor e \<mapsto> n)"
    and rest: "construct data t1 = Inr t'"
    by (rule construct_step)
  have "dom (reverse t1) = insert (descriptor e) (dom (reverse t))" using t1 by simp
  with Cons.IH [OF rest] show ?case by simp
qed

lemma construct_dom_names:
  "construct data t = Inr t' \<Longrightarrow>
   dom (names t') = dom (names t) \<union> {n. \<exists>e\<in>set data. compose_entry e = Inr n}"
proof (induction data arbitrary: t)
  case Nil
  then show ?case by simp
next
  case (Cons e data)
  from Cons.prems(1) obtain n t1 where n: "compose_entry e = Inr n"
    and t1: "names t1 = (names t)(n \<mapsto> descriptor e)"
    and rest: "construct data t1 = Inr t'"
    by (rule construct_step)
  have "dom (names t1) = insert n (dom (names t))" using t1 by simp
  with Cons.IH [OF rest] n show ?case by auto
qed

lemma construct_succeeds:
  "map compose_entry data = map Inr ns \<Longrightarrow> distinct ns \<Longrightarrow>
   set ns \<inter> dom (names t) = {} \<Longrightarrow> \<exists>t'. construct data t = Inr t'"
proof (induction data arbitrary: t ns)
  case Nil
  then show ?case by simp
next
  case (Cons e data)
  from Cons.prems(1) obtain n ns' where ns: "ns = n # ns'" "compose_entry e = Inr n"
    "map compose_entry data = map Inr ns'"
    by (cases ns) auto
  have n: "n \<notin> dom (names t)" using Cons.prems(3) ns(1) by auto
  from ns(2) n obtain t1 where t1: "names t1 = (names t)(n \<mapsto> descriptor e)"
    and step: "construct (e # data) t = construct data t1"
    by (rule construct_continue)
  have "dom (names t1) = insert n (dom (names t))" using t1 by simp
  then have "distinct ns'" "set ns' \<inter> dom (names t1) = {}"
    using Cons.prems(2,3) ns(1) by auto
  with Cons.IH [OF ns(3), of t1] step show ?case by simp
qed

text \<open>
  The loop ends in the duplicate-name failure exactly when it reaches an entry whose name
  is already a key: the entries before it composed to distinct new names, and its own name
  is a key of the starting table or one of theirs.
\<close>

lemma construct_duplicate_iff:
  "construct data t = Inl DuplicateName \<longleftrightarrow>
     (\<exists>pre e post ns n. data = pre @ e # post \<and> map compose_entry pre = map Inr ns \<and>
        distinct ns \<and> set ns \<inter> dom (names t) = {} \<and> compose_entry e = Inr n \<and>
        n \<in> dom (names t) \<union> set ns)"
  (is "?L data t \<longleftrightarrow> ?R data t")
proof
  show "?L data t \<Longrightarrow> ?R data t"
  proof (induction data arbitrary: t)
    case Nil
    then show ?case by simp
  next
    case (Cons e data)
    show ?case
    proof (cases "compose_entry e")
      case (Inl err)
      then have "err = MalformedChain"
        by (auto simp: compose_entry_def dest: composeTypeName_error)
      with Inl Cons.prems show ?thesis by (simp add: construct_Cons)
    next
      case (Inr n)
      show ?thesis
      proof (cases "n \<in> dom (names t)")
        case True
        with Inr have "e # data = [] @ e # data \<and> map compose_entry [] = map Inr [] \<and>
           distinct ([]::string list) \<and> set [] \<inter> dom (names t) = {} \<and>
           compose_entry e = Inr n \<and> n \<in> dom (names t) \<union> set []" by simp
        then show ?thesis by blast
      next
        case False
        from Inr False obtain t1 where t1: "names t1 = (names t)(n \<mapsto> descriptor e)"
          and step: "construct (e # data) t = construct data t1"
          by (rule construct_continue)
        have dm: "dom (names t1) = insert n (dom (names t))" using t1 by simp
        from Cons.prems step have "construct data t1 = Inl DuplicateName" by simp
        from Cons.IH [OF this] obtain pre e' post ns n' where
          h: "data = pre @ e' # post" "map compose_entry pre = map Inr ns" "distinct ns"
             "set ns \<inter> dom (names t1) = {}" "compose_entry e' = Inr n'"
             "n' \<in> dom (names t1) \<union> set ns"
          by blast
        have "e # data = (e # pre) @ e' # post \<and>
           map compose_entry (e # pre) = map Inr (n # ns) \<and>
           distinct (n # ns) \<and> set (n # ns) \<inter> dom (names t) = {} \<and>
           compose_entry e' = Inr n' \<and> n' \<in> dom (names t) \<union> set (n # ns)"
          using h Inr False dm by auto
        then show ?thesis by blast
      qed
    qed
  qed
next
  assume "?R data t"
  then obtain pre e post ns n where
    h: "data = pre @ e # post" "map compose_entry pre = map Inr ns" "distinct ns"
       "set ns \<inter> dom (names t) = {}" "compose_entry e = Inr n" "n \<in> dom (names t) \<union> set ns"
    by blast
  from h(2,3,4,6) show "?L data t" unfolding h(1)
  proof (induction pre arbitrary: t ns)
    case Nil
    with h(5) show ?case by (auto simp: construct_Cons)
  next
    case (Cons p pre)
    from Cons.prems(1) obtain m ns' where ns: "ns = m # ns'" "compose_entry p = Inr m"
      "map compose_entry pre = map Inr ns'"
      by (cases ns) auto
    have m: "m \<notin> dom (names t)" using Cons.prems(3) ns(1) by auto
    from ns(2) m obtain t1 where t1: "names t1 = (names t)(m \<mapsto> descriptor p)"
      and step: "construct (p # pre @ e # post) t = construct (pre @ e # post) t1"
      by (rule construct_continue)
    have dm: "dom (names t1) = insert m (dom (names t))" using t1 by simp
    have "distinct ns'" "set ns' \<inter> dom (names t1) = {}" "n \<in> dom (names t1) \<union> set ns'"
      using Cons.prems(2,3,4) ns(1) dm by auto
    with Cons.IH [OF ns(3), of t1] step show ?case by simp
  qed
qed

lemma new_dotted:
  "new_TypeNameLookup [\<lparr>descriptor = ex_dotted, ancestors = [ex_no_package]\<rparr>]
     = Inr ex_dotted_lookup"
  by (simp add: new_TypeNameLookup_def construct_Cons compose_entry_def compose_simps ex_defs
        ex_dotted_lookup_def)

lemma new_outer:
  "new_TypeNameLookup [\<lparr>descriptor = ex_outer, ancestors = [ex_fileA]\<rparr>] = Inr ex_outer_lookup"
  by (simp add: new_TypeNameLookup_def construct_Cons compose_entry_def compose_simps ex_defs
        ex_outer_lookup_def)

text \<open>
  C3, as amended.  When the entries compose to pairwise distinct names of which none
  starts with a period, the construction succeeds, and for every descriptor of the entries
  \<open>makeTypeName\<close> returns a name on which \<open>resolveTypeName\<close> returns that descriptor.
\<close>

theorem new_TypeNameLookup_round_trip:
  assumes "map compose_entry data = map Inr ns" and "distinct ns"
    and "\<forall>n\<in>set ns. \<not> startsWith n ''.''"
  shows "\<exists>t. new_TypeNameLookup data = Inr t
           \<and> (\<forall>e\<in>set data. \<exists>n. makeTypeName t (descriptor e) = Inr n
                 \<and> resolveTypeName t n = Inr (descriptor e))"
proof -
  from construct_succeeds [OF assms(1,2), of "\<lparr>names = Map.empty, reverse = Map.empty\<rparr>"]
  obtain t where t: "construct data \<lparr>names = Map.empty, reverse = Map.empty\<rparr> = Inr t"
    by auto
  have cons: "consistent t"
    using t consistent_empty by (rule construct_consistent)
  have dr: "dom (reverse t) = descriptor ` set data"
    using construct_dom_reverse [OF t] by simp
  have dn: "dom (names t) = {n. \<exists>e\<in>set data. compose_entry e = Inr n}"
    using construct_dom_names [OF t] by simp
  have sub: "dom (names t) \<subseteq> set ns"
  proof
    fix n assume "n \<in> dom (names t)"
    with dn obtain e where "e \<in> set data" "compose_entry e = Inr n" by auto
    then have "Inr n \<in> set (map compose_entry data)" by (metis image_eqI set_map)
    with assms(1) show "n \<in> set ns" by auto
  qed
  have "\<exists>n. makeTypeName t (descriptor e) = Inr n \<and> resolveTypeName t n = Inr (descriptor e)"
    if "e \<in> set data" for e
  proof -
    from that dr obtain n where n: "reverse t (descriptor e) = Some n" by auto
    with cons have nm: "names t n = Some (descriptor e)" by (simp add: consistent_def)
    then have "n \<in> set ns" using sub by auto
    with assms(3) have "normalizeTypeName n = n" by (simp add: normalizeTypeName_plain)
    with n nm show ?thesis by (simp add: makeTypeName_def resolveTypeName_def)
  qed
  with t show ?thesis by (simp add: new_TypeNameLookup_def)
qed

text \<open>The entries of \<open>Outer\<close> and \<open>Inner\<close> in \<open>a.proto\<close>.\<close>

theorem new_TypeNameLookup_round_trip_witness:
  "map compose_entry [\<lparr>descriptor = ex_outer, ancestors = [ex_fileA]\<rparr>,
                      \<lparr>descriptor = ex_inner, ancestors = [ex_fileA, ex_outer]\<rparr>]
     = map Inr [''pkg.Outer'', ''pkg.Outer.Inner'']
   \<and> distinct [''pkg.Outer'', ''pkg.Outer.Inner'']
   \<and> \<not> startsWith ''pkg.Outer'' ''.'' \<and> \<not> startsWith ''pkg.Outer.Inner'' ''.''
   \<and> (\<exists>t. new_TypeNameLookup [\<lparr>descriptor = ex_outer, ancestors = [ex_fileA]\<rparr>,
                                \<lparr>descriptor = ex_inner, ancestors = [ex_fileA, ex_outer]\<rparr>]
            = Inr t
          \<and> (\<exists>n. makeTypeName t ex_outer = Inr n \<and> resolveTypeName t n = Inr ex_outer)
          \<and> (\<exists>n. makeTypeName t ex_inner = Inr n \<and> resolveTypeName t n = Inr ex_inner))"
proof -
  have 1: "map compose_entry [\<lparr>descriptor = ex_outer, ancestors = [ex_fileA]\<rparr>,
                      \<lparr>descriptor = ex_inner, ancestors = [ex_fileA, ex_outer]\<rparr>]
     = map Inr [''pkg.Outer'', ''pkg.Outer.Inner'']"
    by (simp add: compose_entry_def compose_simps ex_defs)
  have 2: "distinct [''pkg.Outer'', ''pkg.Outer.Inner'']" by simp
  have 3: "\<forall>n\<in>set [''pkg.Outer'', ''pkg.Outer.Inner'']. \<not> startsWith n ''.''"
    by (simp add: startsWith_def)
  from new_TypeNameLookup_round_trip [OF 1 2 3] 1 2 3 show ?thesis by simp
qed

text \<open>
  The single entry of the message named \<open>.X\<close>: the construction succeeds, \<open>makeTypeName\<close>
  returns \<open>.X\<close>, and \<open>resolveTypeName\<close> on \<open>.X\<close> does not return the message.
\<close>

theorem new_TypeNameLookup_round_trip_leading_period:
  "map compose_entry [\<lparr>descriptor = ex_dotted, ancestors = [ex_no_package]\<rparr>] = map Inr [''.X'']
   \<and> distinct [''.X'']
   \<and> new_TypeNameLookup [\<lparr>descriptor = ex_dotted, ancestors = [ex_no_package]\<rparr>]
       = Inr ex_dotted_lookup
   \<and> makeTypeName ex_dotted_lookup ex_dotted = Inr ''.X''
   \<and> resolveTypeName ex_dotted_lookup ''.X'' \<noteq> Inr ex_dotted"
  by (simp add: new_dotted)
     (simp add: compose_entry_def compose_simps ex_defs ex_dotted_lookup_def makeTypeName_def
        resolveTypeName_def Let_def normalizeTypeName_def startsWith_def substring_def)

text \<open>
  In the lookup built from the message named \<open>.X\<close> the name \<open>.X\<close> is in the table; with a
  period in front it resolves to the message, as it stands it does not resolve.
\<close>

theorem resolveTypeName_dotted_key:
  "new_TypeNameLookup [\<lparr>descriptor = ex_dotted, ancestors = [ex_no_package]\<rparr>]
     = Inr ex_dotted_lookup
   \<and> names ex_dotted_lookup ''.X'' = Some ex_dotted
   \<and> resolveTypeName ex_dotted_lookup (''.'' @ ''.X'') = Inr ex_dotted
   \<and> resolveTypeName ex_dotted_lookup ''.X'' = Inl (UnresolvedName ''X'')"
  by (simp add: new_dotted)
     (simp add: ex_dotted_lookup_def resolveTypeName_def Let_def normalizeTypeName_def
        startsWith_def substring_def)

text \<open>
  C8, as amended.  The construction ends in the duplicate-name failure exactly when it
  reaches an entry whose composed name is already a key of the forward map, that is, the
  name of an earlier entry, whichever descriptor that entry has: the entries before it
  composed to pairwise distinct names, and its own name is one of them.  No table is
  returned then.
\<close>

theorem new_TypeNameLookup_duplicate_iff:
  "new_TypeNameLookup data = Inl DuplicateName \<longleftrightarrow>
     (\<exists>pre e post ns n. data = pre @ e # post \<and> map compose_entry pre = map Inr ns \<and>
        distinct ns \<and> compose_entry e = Inr n \<and> n \<in> set ns)"
  by (simp add: new_TypeNameLookup_def construct_duplicate_iff)

text \<open>Two files that each declare \<open>pkg.Dup\<close>.\<close>

theorem new_TypeNameLookup_duplicate_iff_witness:
  "(\<exists>pre e post ns n.
       [\<lparr>descriptor = ex_dupA, ancestors = [ex_fileA]\<rparr>,
        \<lparr>descriptor = ex_dupB, ancestors = [ex_fileB]\<rparr>] = pre @ e # post
       \<and> map compose_entry pre = map Inr ns \<and> distinct ns \<and> compose_entry e = Inr n
       \<and> n \<in> set ns)
   \<and> ex_dupA \<noteq> ex_dupB
   \<and> new_TypeNameLookup [\<lparr>descriptor = ex_dupA, ancestors = [ex_fileA]\<rparr>,
                          \<lparr>descriptor = ex_dupB, ancestors = [ex_fileB]\<rparr>] = Inl DuplicateName"
proof -
  have "[\<lparr>descriptor = ex_dupA, ancestors = [ex_fileA]\<rparr>,
         \<lparr>descriptor = ex_dupB, ancestors = [ex_fileB]\<rparr>]
        = [\<lparr>descriptor = ex_dupA, ancestors = [ex_fileA]\<rparr>]
          @ \<lparr>descriptor = ex_dupB, ancestors = [ex_fileB]\<rparr> # []
     \<and> map compose_entry [\<lparr>descriptor = ex_dupA, ancestors = [ex_fileA]\<rparr>]
         = map Inr [''pkg.Dup'']
     \<and> distinct [''pkg.Dup'']
     \<and> compose_entry \<lparr>descriptor = ex_dupB, ancestors = [ex_fileB]\<rparr> = Inr ''pkg.Dup''
     \<and> ''pkg.Dup'' \<in> set [''pkg.Dup'']"
    by (simp add: compose_entry_def compose_simps ex_defs)
  then have ex: "\<exists>pre e post ns n.
       [\<lparr>descriptor = ex_dupA, ancestors = [ex_fileA]\<rparr>,
        \<lparr>descriptor = ex_dupB, ancestors = [ex_fileB]\<rparr>] = pre @ e # post
       \<and> map compose_entry pre = map Inr ns \<and> distinct ns \<and> compose_entry e = Inr n
       \<and> n \<in> set ns"
    by blast
  have ne: "ex_dupA \<noteq> ex_dupB" by (simp add: ex_defs)
  from ex ne new_TypeNameLookup_duplicate_iff
    [of "[\<lparr>descriptor = ex_dupA, ancestors = [ex_fileA]\<rparr>,
          \<lparr>descriptor = ex_dupB, ancestors = [ex_fileB]\<rparr>]"]
  show ?thesis by blast
qed

text \<open>The same descriptor with the same ancestors twice: the second entry fails.\<close>

theorem new_TypeNameLookup_same_descriptor_twice:
  "new_TypeNameLookup [\<lparr>descriptor = ex_outer, ancestors = [ex_fileA]\<rparr>,
                       \<lparr>descriptor = ex_outer, ancestors = [ex_fileA]\<rparr>] = Inl DuplicateName"
  by (simp add: new_TypeNameLookup_def construct_Cons compose_entry_def compose_simps ex_defs)

section \<open>Collecting the ancestors\<close>

text \<open>
  The loop asks the parent provider for the parent of the descriptor \<open>d\<close> in every round,
  so a round after which it is left does not exist once \<open>d\<close> has a parent.
\<close>

lemma climb_returns:
  assumes "climb b d p anc = Some r"
  shows "p = None \<or> b d = None"
  using assms
proof (induction b d p anc r rule: climb.raw_induct [rotated 1, consumes 1])
  case (1 f b d p anc r)
  show ?case
  proof (cases p)
    case None
    then show ?thesis by simp
  next
    case (Some q)
    with 1(2) have "f b d (b d) (q # anc) = Some r" by simp
    then have "b d = None \<or> b d = None" by (rule 1(1))
    then show ?thesis by simp
  qed
qed

lemma climb_diverges: "b d \<noteq> None \<Longrightarrow> climb b d (b d) anc = None"
  using climb_returns [of b d "b d" anc] by (cases "climb b d (b d) anc") auto

lemma collect_diverges:
  "d \<in> set a \<Longrightarrow> isAnyTypeDescriptorProto d \<Longrightarrow> b d \<noteq> None \<Longrightarrow> collect a b data = None"
proof (induction a arbitrary: data)
  case Nil
  then show ?case by simp
next
  case (Cons x a)
  show ?case
  proof (cases "x = d")
    case True
    with Cons.prems show ?thesis by (simp add: climb_diverges)
  next
    case False
    with Cons have "\<And>data. collect a b data = None" by simp
    then show ?thesis by (simp split: option.splits)
  qed
qed

lemma no_chain_parent: "\<not> (\<exists>anc. ancestor_chain b d anc) \<Longrightarrow> b d \<noteq> None"
  using ancestor_chain.root [of b d] by blast

lemma ex_cyclic_no_chain:
  "ancestor_chain ex_cyclic d anc \<Longrightarrow> d \<noteq> ex_outer \<and> d \<noteq> ex_inner"
  by (induction rule: ancestor_chain.induct) (auto simp: ex_cyclic_def split: if_splits)

text \<open>
  C1. With the list \<open>a.proto\<close>, \<open>Outer\<close>, \<open>Inner\<close> and their parent provider, the ancestor
  chain of \<open>Inner\<close> is \<open>a.proto\<close>, \<open>Outer\<close> and that of \<open>Outer\<close> is \<open>a.proto\<close>; the source does
  not pair the descriptors with these chains, it does not return.
\<close>

theorem from_descriptors_parent_loop:
  "ancestor_chain ex_parentOf ex_outer [ex_fileA]
   \<and> ancestor_chain ex_parentOf ex_inner [ex_fileA, ex_outer]
   \<and> from_descriptors [ex_fileA, ex_outer, ex_inner] ex_parentOf = None"
proof -
  have 0: "ancestor_chain ex_parentOf ex_fileA []"
    by (rule ancestor_chain.root) (simp add: ex_parentOf_def ex_defs)
  have 1: "ancestor_chain ex_parentOf ex_outer ([] @ [ex_fileA])"
    by (rule ancestor_chain.step [OF _ 0]) (simp add: ex_parentOf_def)
  have 2: "ancestor_chain ex_parentOf ex_inner ([ex_fileA] @ [ex_outer])"
    using 1 by (intro ancestor_chain.step) (simp_all add: ex_parentOf_def ex_defs)
  have "collect [ex_fileA, ex_outer, ex_inner] ex_parentOf [] = None"
    by (rule collect_diverges [of ex_outer])
       (simp_all add: isAnyTypeDescriptorProto_def ex_outer_def ex_parentOf_def)
  with 1 2 show ?thesis by (simp add: from_descriptors_def)
qed

text \<open>
  C2, as amended.  \<open>TypeNameLookup.from\<close> has no guard against a parent cycle: when the
  list holds a message, enum or service from which following the parent provider never
  reaches none, it does not return, and so reports no malformed chain.
\<close>

theorem from_descriptors_no_cycle_guard:
  assumes "d \<in> set a" and "isAnyTypeDescriptorProto d"
    and "\<not> (\<exists>anc. ancestor_chain b d anc)"
  shows "from_descriptors a b = None"
proof -
  from assms(3) have "b d \<noteq> None" by (rule no_chain_parent)
  with assms(1,2) have "collect a b [] = None" by (rule collect_diverges)
  then show ?thesis by (simp add: from_descriptors_def)
qed

text \<open>
  The list of \<open>Outer\<close> and \<open>Inner\<close> with the provider that makes each the parent of the
  other.
\<close>

theorem from_descriptors_no_cycle_guard_witness:
  "ex_outer \<in> set [ex_outer, ex_inner] \<and> isAnyTypeDescriptorProto ex_outer
   \<and> \<not> (\<exists>anc. ancestor_chain ex_cyclic ex_outer anc)
   \<and> from_descriptors [ex_outer, ex_inner] ex_cyclic = None"
proof -
  have m: "ex_outer \<in> set [ex_outer, ex_inner]" by simp
  have k: "isAnyTypeDescriptorProto ex_outer"
    by (simp add: isAnyTypeDescriptorProto_def ex_defs)
  have n: "\<not> (\<exists>anc. ancestor_chain ex_cyclic ex_outer anc)"
    using ex_cyclic_no_chain [of ex_outer] by blast
  from from_descriptors_no_cycle_guard [OF m k n] m k n show ?thesis by simp
qed

text \<open>With the cyclic provider no malformed chain is reported.\<close>

theorem from_descriptors_cycle_not_reported:
  "ex_cyclic ex_outer = Some ex_inner \<and> ex_cyclic ex_inner = Some ex_outer
   \<and> from_descriptors [ex_outer, ex_inner] ex_cyclic \<noteq> Some (Inl MalformedChain)"
proof -
  have "collect [ex_outer, ex_inner] ex_cyclic [] = None"
    by (rule collect_diverges [of ex_outer])
       (simp_all add: isAnyTypeDescriptorProto_def ex_outer_def ex_cyclic_def)
  then show ?thesis
    by (simp add: from_descriptors_def ex_cyclic_def ex_defs)
qed

end
